theory Spec2Isabelle
  imports Main "HOL-Library.Word"
begin

unbundle bit_operations_syntax

section \<open>Object pool and double buffer\<close>

text \<open>
  A shallow embedding of \<^verbatim>\<open>examples/object_pool_vs_double_buffer.cpp\<close>: the class
  templates \<^verbatim>\<open>EventPool<N>\<close> and \<^verbatim>\<open>DoubleBuffer<N>\<close>. The template parameter
  \<^verbatim>\<open>N\<close> is the first argument of every operation that depends on it. A member
  \<^verbatim>\<open>x_\<close> of the source is the field \<open>x\<close> of the record (an Isabelle name cannot end
  in an underscore). Indices of type \<^verbatim>\<open>size_t\<close> are natural numbers: the only
  place where the source can wrap around is \<^verbatim>\<open>N-1\<close> at \<^verbatim>\<open>N = 0\<close>, which the
  constructor's model treats apart.

  Where the C++ has undefined behaviour (an index outside an array, a null pointer,
  an access to a slot that holds no object), the model returns \<open>Inl\<close> of an
  element of the type below. That is not an error the source reports: the source has no check
  at any of these places.
\<close>

datatype ub = OutOfBounds | NullPointer | DeadObject

subsection \<open>Event\<close>

record Event =
  ts :: "32 word"
  type :: "8 word"
  payload :: "8 word list"

text \<open>\<^verbatim>\<open>Event{}\<close>: every member is zero.\<close>

definition Event_init :: Event where
  "Event_init = \<lparr>ts = 0, type = 0, payload = replicate 8 0\<rparr>"

subsection \<open>EventPool\<close>

text \<open>
  \<^verbatim>\<open>unsigned char storage_[N][sizeof(Event)]; size_t next_[N]; size_t head_ = 0;\<close>
  A slot of \<open>storage\<close> is \<open>Some e\<close> while an \<^verbatim>\<open>Event\<close> object lives in it (between the
  placement \<^verbatim>\<open>new\<close> of \<^verbatim>\<open>acquire\<close> and the destructor call of \<^verbatim>\<open>release\<close>), and
  \<open>None\<close> while it is raw bytes.
\<close>

record EventPool =
  storage :: "Event option list"
  "next" :: "nat list"
  head :: nat

text \<open>
  An \<^verbatim>\<open>Event*\<close>: the null pointer, or the address of slot \<open>idx\<close>, for which
  \<^verbatim>\<open>e - reinterpret_cast<Event*>(storage_)\<close> is \<open>idx\<close>. A pointer that does not point
  into this pool's storage is a \<open>Slot idx\<close> with \<open>idx\<close> not below \<open>N\<close>.
\<close>

datatype ptr = nullptr | Slot nat

text \<open>
  The constructor's loop \<^verbatim>\<open>for(size_t i=0;i<N-1;++i) next_[i]=i+1;\<close>, started with
  the loop variable at \<open>i\<close>. It is only run for \<open>N > 0\<close>, where \<^verbatim>\<open>N-1\<close> does not
  wrap around.
\<close>

function ctor_loop :: "nat \<Rightarrow> nat \<Rightarrow> nat list \<Rightarrow> nat list" where
  "ctor_loop i N nxt = (if i < N - 1 then ctor_loop (i + 1) N (nxt[i := i + 1]) else nxt)"
  by pat_completeness auto
termination
  by (relation "measure (\<lambda>(i, N, nxt). N - 1 - i)") auto

declare ctor_loop.simps [simp del]

text \<open>
  \<^verbatim>\<open>EventPool()\<close>. The array \<^verbatim>\<open>next_\<close> has no initialiser: \<open>raw\<close> is what it holds when
  the constructor's body starts. \<^verbatim>\<open>EventPool<0>\<close> declares arrays of no elements,
  which C++ does not allow, and its constructor would write \<^verbatim>\<open>next_[i]\<close> for every
  \<open>i\<close> below \<^verbatim>\<open>SIZE_MAX\<close>: it has no constructed state.
\<close>

definition EventPool_ctor :: "nat \<Rightarrow> nat list \<Rightarrow> ub + EventPool" where
  "EventPool_ctor N raw =
     (if N = 0 then Inl OutOfBounds
      else Inr \<lparr>storage = replicate N None,
                next = (ctor_loop 0 N raw)[N - 1 := N],
                head = 0\<rparr>)"

text \<open>
  \<^verbatim>\<open>acquire\<close>: the pointer returned and the pool afterwards. With \<^verbatim>\<open>head_\<close> above
  \<open>N\<close> the source reads \<^verbatim>\<open>next_[idx]\<close> outside the array.
\<close>

definition acquire :: "nat \<Rightarrow> EventPool \<Rightarrow> ub + (ptr \<times> EventPool)" where
  "acquire N p =
     (if head p = N then Inr (nullptr, p)
      else if head p < N then
        (let idx = head p;
             p1 = p\<lparr>head := next p ! idx\<rparr>;
             p2 = p1\<lparr>storage := (storage p1)[idx := Some Event_init]\<rparr>
         in Inr (Slot idx, p2))
      else Inl OutOfBounds)"

text \<open>
  \<^verbatim>\<open>release\<close>: the destructor call ends the object's life, then
  \<^verbatim>\<open>next_[idx] = head_; head_ = idx;\<close>. Nothing in the source looks at whether the
  slot is live, and the destructor of \<^verbatim>\<open>Event\<close> is trivial (the call is no
  instruction at all), so a slot that holds no object is linked in like a live one.
  With \<open>idx\<close> not below \<open>N\<close> the source writes outside \<^verbatim>\<open>next_\<close>.
\<close>

fun release :: "nat \<Rightarrow> EventPool \<Rightarrow> ptr \<Rightarrow> ub + EventPool" where
  "release N p nullptr = Inl NullPointer"
| "release N p (Slot idx) =
     (if idx < N then
        (let p1 = p\<lparr>storage := (storage p)[idx := None]\<rparr>;
             p2 = p1\<lparr>next := (next p1)[idx := head p1]\<rparr>
         in Inr (p2\<lparr>head := idx\<rparr>))
      else Inl OutOfBounds)"

text \<open>
  The caller's accesses through a pointer \<open>e\<close> that \<^verbatim>\<open>acquire\<close> returned: a write to
  the object (\<^verbatim>\<open>e->type = 1\<close> in \<^verbatim>\<open>demo\<close> is \<open>modify N p e (\<lambda>ev. ev\<lparr>type := 1\<rparr>)\<close>) and
  a read of it.
\<close>

fun modify :: "nat \<Rightarrow> EventPool \<Rightarrow> ptr \<Rightarrow> (Event \<Rightarrow> Event) \<Rightarrow> ub + EventPool" where
  "modify N p nullptr g = Inl NullPointer"
| "modify N p (Slot idx) g =
     (if idx < N then
        (case storage p ! idx of
           None \<Rightarrow> Inl DeadObject
         | Some e \<Rightarrow> Inr (p\<lparr>storage := (storage p)[idx := Some (g e)]\<rparr>))
      else Inl OutOfBounds)"

fun deref :: "nat \<Rightarrow> EventPool \<Rightarrow> ptr \<Rightarrow> ub + Event" where
  "deref N p nullptr = Inl NullPointer"
| "deref N p (Slot idx) =
     (if idx < N then
        (case storage p ! idx of None \<Rightarrow> Inl DeadObject | Some e \<Rightarrow> Inr e)
      else Inl OutOfBounds)"

text \<open>\<open>k\<close> calls of \<^verbatim>\<open>acquire\<close> in a row: the pointers returned, in order, and the pool
  afterwards.\<close>

fun acquire_n :: "nat \<Rightarrow> nat \<Rightarrow> EventPool \<Rightarrow> ub + (ptr list \<times> EventPool)" where
  "acquire_n N 0 p = Inr ([], p)"
| "acquire_n N (Suc k) p =
     (case acquire N p of
        Inl u \<Rightarrow> Inl u
      | Inr (h, p1) \<Rightarrow>
          (case acquire_n N k p1 of
             Inl u \<Rightarrow> Inl u
           | Inr (hs, p2) \<Rightarrow> Inr (h # hs, p2)))"

text \<open>
  The free list: the slots met from \<open>h\<close> on by following \<open>nxt\<close>, in order, when the
  sentinel \<open>N\<close> is reached within \<open>f\<close> steps; \<open>None\<close> when it is not, or when an index
  above \<open>N\<close> is met. \<open>N\<close> steps are enough for a list that meets no slot twice.
\<close>

fun walk :: "nat \<Rightarrow> nat \<Rightarrow> nat list \<Rightarrow> nat \<Rightarrow> nat list option" where
  "walk N 0 nxt h = (if h = N then Some [] else None)"
| "walk N (Suc f) nxt h =
     (if h = N then Some []
      else if h < N then map_option (Cons h) (walk N f nxt (nxt ! h))
      else None)"

definition free_list :: "nat \<Rightarrow> EventPool \<Rightarrow> nat list option" where
  "free_list N p = walk N N (next p) (head p)"

text \<open>\<open>fl\<close> is the chain of slots from \<open>h\<close> to the sentinel \<open>N\<close>.\<close>

fun is_path :: "nat \<Rightarrow> nat list \<Rightarrow> nat \<Rightarrow> nat list \<Rightarrow> bool" where
  "is_path N nxt h [] = (h = N)"
| "is_path N nxt h (x # xs) = (h = x \<and> x < N \<and> is_path N nxt (nxt ! x) xs)"

text \<open>
  The pool's invariant, for the set \<open>live\<close> of slots whose pointers the caller holds
  and the free list \<open>fl\<close>: the arrays have \<open>N\<close> elements, \<open>fl\<close> is the chain from
  \<open>head\<close> to the sentinel, it meets no slot twice, \<open>fl\<close> and \<open>live\<close> are disjoint and
  cover the slots, and the live slots are those that hold an object.
\<close>

definition pool_inv :: "nat \<Rightarrow> EventPool \<Rightarrow> nat set \<Rightarrow> nat list \<Rightarrow> bool" where
  "pool_inv N p live fl \<longleftrightarrow>
     length (storage p) = N \<and> length (next p) = N \<and>
     is_path N (next p) (head p) fl \<and> distinct fl \<and>
     set fl \<inter> live = {} \<and> set fl \<union> live = {0..<N} \<and>
     live = {i. i < N \<and> storage p ! i \<noteq> None}"

text \<open>
  The pool states a caller can reach while it keeps the contract of \<^verbatim>\<open>release\<close>,
  each with the set of slots whose pointers the caller holds: the constructed pool,
  holding none; an \<^verbatim>\<open>acquire\<close> that returns a slot, or the null pointer; a
  \<^verbatim>\<open>release\<close> of a pointer the caller holds; a write through such a pointer.
\<close>

inductive pool_reach :: "nat \<Rightarrow> EventPool \<Rightarrow> nat set \<Rightarrow> bool" for N :: nat where
  fresh: "length raw = N \<Longrightarrow> EventPool_ctor N raw = Inr p \<Longrightarrow> pool_reach N p {}"
| acquired: "pool_reach N p live \<Longrightarrow> acquire N p = Inr (Slot i, p') \<Longrightarrow>
     pool_reach N p' (insert i live)"
| exhausted: "pool_reach N p live \<Longrightarrow> acquire N p = Inr (nullptr, p') \<Longrightarrow>
     pool_reach N p' live"
| released: "pool_reach N p live \<Longrightarrow> i \<in> live \<Longrightarrow> release N p (Slot i) = Inr p' \<Longrightarrow>
     pool_reach N p' (live - {i})"
| modified: "pool_reach N p live \<Longrightarrow> i \<in> live \<Longrightarrow> modify N p (Slot i) g = Inr p' \<Longrightarrow>
     pool_reach N p' live"

subsection \<open>DoubleBuffer\<close>

text \<open>
  \<^verbatim>\<open>std::array<uint16_t,N> buf_[2]{}; int writeIdx_ = 0; int readIdx_ = 1;\<close>
  The two role indices only ever hold 0 or 1, so \<^verbatim>\<open>int\<close> is modelled by \<open>int\<close>.
\<close>

record DoubleBuffer =
  buf :: "16 word list list"
  writeIdx :: int
  readIdx :: int

definition DoubleBuffer_ctor :: "nat \<Rightarrow> DoubleBuffer" where
  "DoubleBuffer_ctor N = \<lparr>buf = [replicate N 0, replicate N 0], writeIdx = 0, readIdx = 1\<rparr>"

text \<open>
  \<^verbatim>\<open>writeBuf\<close> and \<^verbatim>\<open>readBuf\<close> return a pointer to the first element of one of the two
  arrays. The pointer is modelled by the number of the array it points into, so that
  a pointer kept across a \<^verbatim>\<open>commit\<close> still names the same array.
\<close>

definition writeBuf :: "DoubleBuffer \<Rightarrow> int" where
  "writeBuf d = writeIdx d"

definition readBuf :: "DoubleBuffer \<Rightarrow> int" where
  "readBuf d = readIdx d"

definition commit :: "DoubleBuffer \<Rightarrow> DoubleBuffer" where
  "commit d =
     (let d1 = d\<lparr>readIdx := readIdx d XOR 1\<rparr>
      in d1\<lparr>writeIdx := writeIdx d1 XOR 1\<rparr>)"

text \<open>
  The caller's \<^verbatim>\<open>p[i] = x\<close> and \<^verbatim>\<open>p[i]\<close> for a pointer \<open>p\<close> obtained from
  \<^verbatim>\<open>writeBuf\<close> or \<^verbatim>\<open>readBuf\<close> (\<^verbatim>\<open>db.writeBuf()[0] = 123\<close> and \<^verbatim>\<open>db.readBuf()[0]\<close> in
  \<^verbatim>\<open>demo\<close>).
\<close>

definition store :: "nat \<Rightarrow> DoubleBuffer \<Rightarrow> int \<Rightarrow> nat \<Rightarrow> 16 word \<Rightarrow> ub + DoubleBuffer" where
  "store N d k i x =
     (if 0 \<le> k \<and> k < 2 \<and> i < N
      then Inr (d\<lparr>buf := (buf d)[nat k := (buf d ! nat k)[i := x]]\<rparr>)
      else Inl OutOfBounds)"

definition load :: "nat \<Rightarrow> DoubleBuffer \<Rightarrow> int \<Rightarrow> nat \<Rightarrow> ub + 16 word" where
  "load N d k i =
     (if 0 \<le> k \<and> k < 2 \<and> i < N
      then Inr (buf d ! nat k ! i)
      else Inl OutOfBounds)"

text \<open>
  The states of a \<^verbatim>\<open>DoubleBuffer<N>\<close>: the constructed one, and what \<^verbatim>\<open>commit\<close> and
  in-range writes through either pointer make of a state.
\<close>

inductive db_reach :: "nat \<Rightarrow> DoubleBuffer \<Rightarrow> bool" for N :: nat where
  db_ctor: "db_reach N (DoubleBuffer_ctor N)"
| db_commit: "db_reach N d \<Longrightarrow> db_reach N (commit d)"
| db_store: "db_reach N d \<Longrightarrow> store N d k i x = Inr d' \<Longrightarrow> db_reach N d'"

text \<open>The shape every reachable state has: two arrays of \<open>N\<close> elements, and the two
  role indices are 0 and 1 in some order.\<close>

definition db_shape :: "nat \<Rightarrow> DoubleBuffer \<Rightarrow> bool" where
  "db_shape N d \<longleftrightarrow>
     length (buf d) = 2 \<and> length (buf d ! 0) = N \<and> length (buf d ! 1) = N \<and>
     ((writeIdx d = 0 \<and> readIdx d = 1) \<or> (writeIdx d = 1 \<and> readIdx d = 0))"

section \<open>Properties of the pool\<close>

subsection \<open>Construction and capacity\<close>

lemma ctor_loop_length: "length (ctor_loop i N nxt) = length nxt"
proof (induction i N nxt rule: ctor_loop.induct)
  case (1 i N nxt)
  show ?case
  proof (cases "i < N - 1")
    case True
    with "1" show ?thesis by (subst ctor_loop.simps) simp
  next
    case False
    then show ?thesis by (subst ctor_loop.simps) simp
  qed
qed

lemma ctor_loop_nth:
  "j < length nxt \<Longrightarrow>
   ctor_loop i N nxt ! j = (if i \<le> j \<and> j < N - 1 then j + 1 else nxt ! j)"
proof (induction i N nxt rule: ctor_loop.induct)
  case (1 i N nxt)
  show ?case
  proof (cases "i < N - 1")
    case True
    with "1" show ?thesis
      by (subst ctor_loop.simps) (auto simp: nth_list_update)
  next
    case False
    then show ?thesis by (subst ctor_loop.simps) simp
  qed
qed

lemma ctor_next:
  assumes "0 < N" and "length raw = N"
  shows "(ctor_loop 0 N raw)[N - 1 := N] = map Suc [0..<N]"
proof (rule nth_equalityI)
  show "length ((ctor_loop 0 N raw)[N - 1 := N]) = length (map Suc [0..<N])"
    using assms by (simp add: ctor_loop_length)
next
  fix j assume "j < length ((ctor_loop 0 N raw)[N - 1 := N])"
  then have j: "j < N" using assms by (simp add: ctor_loop_length)
  show "(ctor_loop 0 N raw)[N - 1 := N] ! j = map Suc [0..<N] ! j"
  proof (cases "j = N - 1")
    case True
    then show ?thesis using assms j by (simp add: ctor_loop_length)
  next
    case False
    then have "j < N - 1" using j by simp
    then show ?thesis using assms j False by (simp add: ctor_loop_nth)
  qed
qed

lemma EventPool_ctor_eq:
  assumes "0 < N" and "length raw = N"
  shows "EventPool_ctor N raw =
         Inr \<lparr>storage = replicate N None, next = map Suc [0..<N], head = 0\<rparr>"
  using assms ctor_next [OF assms] by (simp add: EventPool_ctor_def)

lemma acquire_n_chain:
  "next p = map Suc [0..<N] \<Longrightarrow> head p = h \<Longrightarrow> h + k \<le> N \<Longrightarrow> length (storage p) = N \<Longrightarrow>
   \<exists>p'. acquire_n N k p = Inr (map Slot [h..<h + k], p') \<and>
        next p' = next p \<and> head p' = h + k \<and> length (storage p') = N"
proof (induction k arbitrary: p h)
  case 0
  then show ?case by simp
next
  case (Suc k)
  let ?p1 = "p\<lparr>head := Suc h, storage := (storage p)[h := Some Event_init]\<rparr>"
  have a: "acquire N p = Inr (Slot h, ?p1)"
    using Suc.prems by (simp add: acquire_def Let_def)
  have "\<exists>p'. acquire_n N k ?p1 = Inr (map Slot [Suc h..<Suc h + k], p') \<and>
        next p' = next ?p1 \<and> head p' = Suc h + k \<and> length (storage p') = N"
    using Suc.prems by (intro Suc.IH) simp_all
  then obtain p' where p': "acquire_n N k ?p1 = Inr (map Slot [Suc h..<Suc h + k], p')"
    "next p' = next ?p1" "head p' = Suc h + k" "length (storage p') = N" by blast
  have "[h..<h + Suc k] = h # [Suc h..<Suc h + k]"
    by (simp add: upt_conv_Cons)
  then show ?case using a p' by simp
qed

lemma acquire_exhausted: "head p = N \<Longrightarrow> acquire N p = Inr (nullptr, p)"
  by (simp add: acquire_def)

lemma acquire_n_append:
  "acquire_n N k p = Inr (hs, p1) \<Longrightarrow> acquire N p1 = Inr (h, p2) \<Longrightarrow>
   acquire_n N (Suc k) p = Inr (hs @ [h], p2)"
proof (induction k arbitrary: p hs)
  case 0
  then show ?case by simp
next
  case (Suc k)
  from Suc.prems(1) obtain h0 q hs0 where
    a: "acquire N p = Inr (h0, q)" and b: "acquire_n N k q = Inr (hs0, p1)" and hs: "hs = h0 # hs0"
    by (auto split: sum.splits prod.splits)
  from Suc.IH [OF b Suc.prems(2)] have "acquire_n N (Suc k) q = Inr (hs0 @ [h], p2)" .
  then show ?case using a hs by (simp del: acquire_n.simps add: acquire_n.simps(2) [of N "Suc k" p])
qed

text \<open>
  C1. For every capacity \<open>N\<close> (one for which \<^verbatim>\<open>EventPool<N>\<close> has a constructed
  state, that is \<open>N > 0\<close>) and whatever \<^verbatim>\<open>next_\<close> held before the constructor ran:
  the pool is constructed, and \<open>N + 1\<close> calls of \<^verbatim>\<open>acquire\<close> in a row all return; the
  first \<open>N\<close> return the slots \<open>0\<close>, \<open>1\<close>, ... in order, none of them null, and the
  last returns the null pointer. Every call returns at once (\<^verbatim>\<open>acquire\<close> has no
  loop), and the two arrays still have \<open>N\<close> elements afterwards.
\<close>

theorem capacity:
  assumes "0 < N" and "length raw = N"
  shows "\<exists>p0 hs p. EventPool_ctor N raw = Inr p0 \<and>
           acquire_n N (N + 1) p0 = Inr (hs, p) \<and>
           hs = map Slot [0..<N] @ [nullptr] \<and>
           length hs = N + 1 \<and> (\<forall>k<N. hs ! k \<noteq> nullptr) \<and> hs ! N = nullptr \<and>
           length (storage p) = N \<and> length (next p) = N"
proof -
  let ?p0 = "\<lparr>storage = replicate N None, next = map Suc [0..<N], head = 0\<rparr>"
  have c: "EventPool_ctor N raw = Inr ?p0" using assms by (rule EventPool_ctor_eq)
  have "\<exists>p'. acquire_n N N ?p0 = Inr (map Slot [0..<0 + N], p') \<and>
        next p' = next ?p0 \<and> head p' = 0 + N \<and> length (storage p') = N"
    by (rule acquire_n_chain) simp_all
  then obtain p where p: "acquire_n N N ?p0 = Inr (map Slot [0..<N], p)"
    "next p = map Suc [0..<N]" "head p = N" "length (storage p) = N" by auto
  have "acquire N p = Inr (nullptr, p)" using p(3) by (rule acquire_exhausted)
  with p(1) have n: "acquire_n N (N + 1) ?p0 = Inr (map Slot [0..<N] @ [nullptr], p)"
    using acquire_n_append by simp
  let ?hs = "map Slot [0..<N] @ [nullptr]"
  have "\<forall>k<N. ?hs ! k \<noteq> nullptr" by (simp add: nth_append)
  moreover have "?hs ! N = nullptr" by (simp add: nth_append)
  ultimately show ?thesis using c n p by auto
qed

theorem capacity_witness:
  "(0::nat) < 16 \<and> length (replicate 16 (7::nat)) = 16 \<and>
   (\<exists>p0 hs p. EventPool_ctor 16 (replicate 16 7) = Inr p0 \<and>
           acquire_n 16 (16 + 1) p0 = Inr (hs, p) \<and>
           hs = map Slot [0..<16] @ [nullptr] \<and>
           length hs = 16 + 1 \<and> (\<forall>k<16. hs ! k \<noteq> nullptr) \<and> hs ! 16 = nullptr \<and>
           length (storage p) = 16 \<and> length (next p) = 16)"
  using capacity [of 16 "replicate 16 7"] by simp

subsection \<open>The free list\<close>

lemma walk_Some_iff:
  "walk N f nxt h = Some fl \<longleftrightarrow> is_path N nxt h fl \<and> length fl \<le> f"
proof (induction f arbitrary: h fl)
  case 0
  then show ?case by (cases fl) auto
next
  case (Suc f)
  then show ?case by (cases fl) auto
qed

lemma is_path_bound: "is_path N nxt h fl \<Longrightarrow> set fl \<subseteq> {0..<N}"
  by (induction fl arbitrary: h) auto

lemma distinct_length_le:
  assumes "distinct fl" and "set fl \<subseteq> {0..<N}"
  shows "length fl \<le> N"
proof -
  have "length fl = card (set fl)" using assms(1) by (simp add: distinct_card)
  also have "\<dots> \<le> card {0..<N}" using assms(2) by (intro card_mono) simp_all
  finally show ?thesis by simp
qed

lemma free_list_Some:
  assumes "is_path N (next p) (head p) fl" and "distinct fl"
  shows "free_list N p = Some fl"
  using assms distinct_length_le [OF assms(2) is_path_bound [OF assms(1)]]
  by (simp add: free_list_def walk_Some_iff)

lemma is_path_update:
  "i \<notin> set fl \<Longrightarrow> is_path N (nxt[i := v]) h fl = is_path N nxt h fl"
  by (induction fl arbitrary: h) auto

subsection \<open>The invariant of the pool\<close>

lemma is_path_init: "h \<le> N \<Longrightarrow> is_path N (map Suc [0..<N]) h [h..<N]"
proof (induction "N - h" arbitrary: h)
  case 0
  then show ?case by simp
next
  case (Suc d)
  then have h: "h < N" by simp
  have rest: "is_path N (map Suc [0..<N]) (Suc h) [Suc h..<N]"
    using Suc by (intro Suc.hyps(1)) simp_all
  have l: "[h..<N] = h # [Suc h..<N]" using h by (rule upt_conv_Cons)
  have n: "map Suc [0..<N] ! h = Suc h" using h by simp
  show ?case unfolding l is_path.simps n using h rest by simp
qed

lemma pool_invI:
  assumes "length (storage p) = N" and "length (next p) = N"
    and "is_path N (next p) (head p) fl" and "distinct fl"
    and "set fl \<inter> live = {}" and "set fl \<union> live = {0..<N}"
    and "live = {i. i < N \<and> storage p ! i \<noteq> None}"
  shows "pool_inv N p live fl"
  unfolding pool_inv_def using assms by blast

lemma pool_invD:
  assumes "pool_inv N p live fl"
  shows "length (storage p) = N" and "length (next p) = N"
    and "is_path N (next p) (head p) fl" and "distinct fl"
    and "set fl \<inter> live = {}" and "set fl \<union> live = {0..<N}"
    and "live = {i. i < N \<and> storage p ! i \<noteq> None}"
  using assms unfolding pool_inv_def by blast+

lemma pool_inv_fresh:
  assumes "length raw = N" and "EventPool_ctor N raw = Inr p"
  shows "pool_inv N p {} [0..<N]"
proof -
  from assms(2) have N: "0 < N" by (auto simp: EventPool_ctor_def split: if_splits)
  with assms have p: "p = \<lparr>storage = replicate N None, next = map Suc [0..<N], head = 0\<rparr>"
    using EventPool_ctor_eq [OF N assms(1)] by simp
  have "is_path N (map Suc [0..<N]) 0 [0..<N]" by (rule is_path_init) simp
  then show ?thesis by (intro pool_invI) (simp_all add: p)
qed

lemma pool_inv_acquire:
  assumes inv: "pool_inv N p live fl" and a: "acquire N p = Inr (Slot i, p')"
  shows "fl \<noteq> [] \<and> i = hd fl \<and> pool_inv N p' (insert i live) (tl fl)"
proof -
  note d = pool_invD [OF inv]
  from a have h: "head p < N" "i = head p"
    and p': "p' = p\<lparr>head := next p ! i, storage := (storage p)[i := Some Event_init]\<rparr>"
    by (auto simp: acquire_def Let_def split: if_splits)
  from d(3) h obtain xs where fl: "fl = i # xs" by (cases fl) auto
  have "pool_inv N p' (insert i live) xs"
  proof (rule pool_invI)
    show "length (storage p') = N" "length (next p') = N" using d(1,2) by (simp_all add: p')
    show "is_path N (next p') (head p') xs" using d(3) by (simp add: p' fl)
    show "distinct xs" using d(4) by (simp add: fl)
    show "set xs \<inter> insert i live = {}" using d(4,5) by (auto simp: fl)
    show "set xs \<union> insert i live = {0..<N}" using d(6) by (auto simp: fl)
    have "insert i live = {j. j < N \<and> (storage p)[i := Some Event_init] ! j \<noteq> None}"
      unfolding d(7) using h d(1) by (auto simp: nth_list_update)
    then show "insert i live = {j. j < N \<and> storage p' ! j \<noteq> None}" by (simp add: p')
  qed
  then show ?thesis using fl by simp
qed

lemma release_eq:
  "i < N \<Longrightarrow> release N p (Slot i) =
     Inr (p\<lparr>storage := (storage p)[i := None], next := (next p)[i := head p], head := i\<rparr>)"
  by (simp add: Let_def)

lemma pool_inv_release:
  assumes inv: "pool_inv N p live fl" and i: "i \<in> live" and r: "release N p (Slot i) = Inr p'"
  shows "pool_inv N p' (live - {i}) (i # fl)"
proof -
  note d = pool_invD [OF inv]
  from d(5,6) i have iN: "i < N" and nfl: "i \<notin> set fl" by auto
  from r have p': "p' = p\<lparr>storage := (storage p)[i := None],
      next := (next p)[i := head p], head := i\<rparr>"
    unfolding release_eq [OF iN] by simp
  show ?thesis
  proof (rule pool_invI)
    show "length (storage p') = N" "length (next p') = N" using d(1,2) by (simp_all add: p')
    have "is_path N ((next p)[i := head p]) (head p) fl"
      using d(3) nfl by (simp add: is_path_update)
    then show "is_path N (next p') (head p') (i # fl)" using iN d(2) by (simp add: p')
    show "distinct (i # fl)" using d(4) nfl by simp
    show "set (i # fl) \<inter> (live - {i}) = {}" using d(5) by auto
    show "set (i # fl) \<union> (live - {i}) = {0..<N}" using d(6) i by auto
    have "live - {i} = {j. j < N \<and> (storage p)[i := None] ! j \<noteq> None}"
      unfolding d(7) using iN d(1) by (auto simp: nth_list_update)
    then show "live - {i} = {j. j < N \<and> storage p' ! j \<noteq> None}" by (simp add: p')
  qed
qed

lemma pool_inv_modify:
  assumes inv: "pool_inv N p live fl" and m: "modify N p (Slot i) g = Inr p'"
  shows "pool_inv N p' live fl"
proof -
  note d = pool_invD [OF inv]
  from m obtain e where iN: "i < N" and e: "storage p ! i = Some e"
    and p': "p' = p\<lparr>storage := (storage p)[i := Some (g e)]\<rparr>"
    by (auto split: if_splits option.splits)
  show ?thesis
  proof (rule pool_invI)
    show "length (storage p') = N" "length (next p') = N" using d(1,2) by (simp_all add: p')
    show "is_path N (next p') (head p') fl" using d(3) by (simp add: p')
    show "distinct fl" "set fl \<inter> live = {}" "set fl \<union> live = {0..<N}" by (rule d)+
    have "live = {j. j < N \<and> (storage p)[i := Some (g e)] ! j \<noteq> None}"
      unfolding d(7) using iN e d(1) by (auto simp: nth_list_update)
    then show "live = {j. j < N \<and> storage p' ! j \<noteq> None}" by (simp add: p')
  qed
qed

lemma pool_reach_inv: "pool_reach N p live \<Longrightarrow> \<exists>fl. pool_inv N p live fl"
proof (induction rule: pool_reach.induct)
  case (fresh raw p)
  then show ?case using pool_inv_fresh by blast
next
  case (acquired p live i p')
  then show ?case using pool_inv_acquire by blast
next
  case (exhausted p live p')
  then have "p' = p" by (auto simp: acquire_def Let_def split: if_splits)
  with exhausted show ?case by simp
next
  case (released p live i p')
  then show ?case using pool_inv_release by blast
next
  case (modified p live i g p')
  then show ?case using pool_inv_modify by blast
qed

lemma pool_inv_head: "pool_inv N p live fl \<Longrightarrow> head p \<le> N"
  by (cases fl) (auto simp: pool_inv_def)

text \<open>
  C2. In every state that a sequence of \<^verbatim>\<open>acquire\<close> and \<^verbatim>\<open>release\<close> calls (and writes
  to live objects) reaches from the constructed pool, when \<^verbatim>\<open>release\<close> is only given
  pointers the caller holds: the walk from \<open>head\<close> along \<open>next\<close> reaches the sentinel
  \<open>N\<close>, it meets no slot twice, and the slots it meets are disjoint from the live
  slots and cover, together with them, all the slots \<open>0\<close>, ..., \<open>N - 1\<close>. In such a
  state \<^verbatim>\<open>acquire\<close> and every \<^verbatim>\<open>release\<close> of a live pointer stay within the arrays,
  so the reachable states are all the states of such a sequence.
\<close>

theorem free_list_integrity:
  assumes "pool_reach N p live"
  shows "\<exists>fl. free_list N p = Some fl \<and> distinct fl \<and>
              set fl \<inter> live = {} \<and> set fl \<union> live = {0..<N} \<and>
              (\<exists>r. acquire N p = Inr r) \<and>
              (\<forall>i\<in>live. \<exists>p'. release N p (Slot i) = Inr p')"
proof -
  from pool_reach_inv [OF assms] obtain fl where inv: "pool_inv N p live fl" ..
  then have "free_list N p = Some fl"
    by (intro free_list_Some pool_invD(3,4))
  moreover have "\<exists>r. acquire N p = Inr r"
    using pool_inv_head [OF inv] by (auto simp: acquire_def Let_def)
  moreover have "\<forall>i\<in>live. \<exists>p'. release N p (Slot i) = Inr p'"
    using pool_invD(5,6) [OF inv] by (auto simp: release_eq)
  ultimately show ?thesis using pool_invD(4,5,6) [OF inv] by blast
qed

theorem free_list_integrity_witness:
  "pool_reach 2 \<lparr>storage = [Some Event_init, None], next = [1, 2], head = 1\<rparr> {0} \<and>
   (\<exists>fl. free_list 2 \<lparr>storage = [Some Event_init, None], next = [1, 2], head = 1\<rparr> = Some fl \<and>
         distinct fl \<and> set fl \<inter> {0} = {} \<and> set fl \<union> {0} = {0..<2} \<and>
         (\<exists>r. acquire 2 \<lparr>storage = [Some Event_init, None], next = [1, 2], head = 1\<rparr> = Inr r) \<and>
         (\<forall>i\<in>{0}. \<exists>p'. release 2 \<lparr>storage = [Some Event_init, None], next = [1, 2], head = 1\<rparr> (Slot i) = Inr p'))"
proof -
  let ?p0 = "\<lparr>storage = [None, None], next = [1, 2], head = 0\<rparr>"
  let ?p1 = "\<lparr>storage = [Some Event_init, None], next = [1, 2], head = 1\<rparr>"
  have "EventPool_ctor 2 [0, 0] = Inr ?p0"
    by (simp add: EventPool_ctor_def ctor_loop.simps eval_nat_numeral)
  then have "pool_reach 2 ?p0 {}" by (intro fresh [of "[0, 0]"]) simp_all
  moreover have "acquire 2 ?p0 = Inr (Slot 0, ?p1)" by (simp add: acquire_def)
  ultimately have r: "pool_reach 2 ?p1 (insert 0 {})" by (rule acquired)
  show ?thesis using r free_list_integrity [OF r] by simp
qed

text \<open>
  C7. In a pool with a free slot (\<open>head\<close> below \<open>N\<close>): \<^verbatim>\<open>acquire\<close> returns the slot
  at the head; after \<^verbatim>\<open>type = 1\<close> is written through that pointer (and reads back as
  1) and the pointer is released, the next \<^verbatim>\<open>acquire\<close> succeeds and returns the same
  slot, and the object there is \<^verbatim>\<open>Event{}\<close>: its \<open>type\<close> is 0, not 1.
\<close>

theorem reuse_default_initialised:
  assumes "head p < N" and "length (storage p) = N"
  shows "\<exists>a p1 p2 e2 p3 b p4 e.
           acquire N p = Inr (a, p1) \<and> a = Slot (head p) \<and>
           modify N p1 a (\<lambda>e. e\<lparr>type := 1\<rparr>) = Inr p2 \<and>
           deref N p2 a = Inr e2 \<and> type e2 = 1 \<and>
           release N p2 a = Inr p3 \<and>
           acquire N p3 = Inr (b, p4) \<and> b = a \<and>
           deref N p4 b = Inr e \<and> e = Event_init \<and> type e = 0 \<and> type e \<noteq> 1"
proof -
  define i where "i = head p"
  define p1 where "p1 = p\<lparr>head := next p ! i, storage := (storage p)[i := Some Event_init]\<rparr>"
  define e2 where "e2 = Event_init\<lparr>type := 1\<rparr>"
  define p2 where "p2 = p1\<lparr>storage := (storage p1)[i := Some e2]\<rparr>"
  define p3 where "p3 = p2\<lparr>storage := (storage p2)[i := None],
                 next := (next p2)[i := head p2], head := i\<rparr>"
  define p4 where "p4 = p3\<lparr>head := next p3 ! i, storage := (storage p3)[i := Some Event_init]\<rparr>"
  have i: "i < N" and len: "i < length (storage p)" using assms by (simp_all add: i_def)
  have 1: "acquire N p = Inr (Slot (head p), p1)"
    using i by (simp add: acquire_def Let_def p1_def i_def)
  have "storage p1 ! i = Some Event_init" using len by (simp add: p1_def)
  then have 2: "modify N p1 (Slot (head p)) (\<lambda>e. e\<lparr>type := 1\<rparr>) = Inr p2"
    using i by (simp add: p2_def e2_def i_def)
  have "storage p2 ! i = Some e2" using len by (simp add: p2_def p1_def)
  then have 3: "deref N p2 (Slot (head p)) = Inr e2"
    using i by (simp add: i_def)
  have 8: "type e2 = 1" by (simp add: e2_def)
  have 4: "release N p2 (Slot (head p)) = Inr p3"
    using i unfolding p3_def i_def by (rule release_eq)
  have "head p3 = i" by (simp add: p3_def)
  then have 5: "acquire N p3 = Inr (Slot (head p), p4)"
    using i by (simp add: acquire_def Let_def p4_def i_def)
  have "storage p4 ! i = Some Event_init"
    using len by (simp add: p4_def p3_def p2_def p1_def)
  then have 6: "deref N p4 (Slot (head p)) = Inr Event_init"
    using i by (simp add: i_def)
  have 7: "type Event_init = 0" "type Event_init \<noteq> 1" by (simp_all add: Event_init_def)
  show ?thesis using 1 2 3 8 4 5 6 7 by blast
qed

theorem reuse_default_initialised_witness:
  "head \<lparr>storage = replicate 16 None, next = map Suc [0..<16], head = 0\<rparr> < 16 \<and>
   length (storage \<lparr>storage = replicate 16 None, next = map Suc [0..<16], head = 0\<rparr>) = 16 \<and>
   (\<exists>a p1 p2 e2 p3 b p4 e.
           acquire 16 \<lparr>storage = replicate 16 None, next = map Suc [0..<16], head = 0\<rparr> = Inr (a, p1) \<and>
           a = Slot 0 \<and>
           modify 16 p1 a (\<lambda>e. e\<lparr>type := 1\<rparr>) = Inr p2 \<and>
           deref 16 p2 a = Inr e2 \<and> type e2 = 1 \<and>
           release 16 p2 a = Inr p3 \<and>
           acquire 16 p3 = Inr (b, p4) \<and> b = a \<and>
           deref 16 p4 b = Inr e \<and> e = Event_init \<and> type e = 0 \<and> type e \<noteq> 1)"
  using reuse_default_initialised
    [of "\<lparr>storage = replicate 16 None, next = map Suc [0..<16], head = 0\<rparr>" 16]
  by simp

text \<open>
  C9. When \<^verbatim>\<open>acquire\<close> returns the null pointer, the pool is as it was before the
  call: the same \<open>head\<close>, the same \<open>next\<close> and the same \<open>storage\<close>.
\<close>

theorem exhausted_acquire_no_change:
  assumes "acquire N p = Inr (nullptr, p')"
  shows "p' = p \<and> head p' = head p \<and> next p' = next p \<and> storage p' = storage p"
  using assms by (auto simp: acquire_def Let_def split: if_splits)

theorem exhausted_acquire_no_change_witness:
  "acquire 1 \<lparr>storage = [Some Event_init], next = [1], head = 1\<rparr> =
     Inr (nullptr, \<lparr>storage = [Some Event_init], next = [1], head = 1\<rparr>) \<and>
   \<lparr>storage = [Some Event_init], next = [1], head = 1\<rparr> =
     \<lparr>storage = [Some Event_init], next = [1], head = (1::nat)\<rparr>"
proof -
  have a: "acquire 1 \<lparr>storage = [Some Event_init], next = [1], head = 1\<rparr> =
     Inr (nullptr, \<lparr>storage = [Some Event_init], next = [1], head = 1\<rparr>)"
    by (simp add: acquire_def)
  show ?thesis using a exhausted_acquire_no_change [OF a] by simp
qed

lemma is_path_closed:
  assumes "\<forall>x\<in>S. x < N \<and> nxt ! x \<in> S"
  shows "h \<in> S \<Longrightarrow> \<not> is_path N nxt h fl"
  using assms by (induction fl arbitrary: h) auto

lemma is_path_prefix:
  "is_path N nxt h (pre @ i # post) \<Longrightarrow>
   i < N \<and> h \<in> insert i (set pre) \<and> (\<forall>x\<in>set pre. x < N \<and> nxt ! x \<in> insert i (set pre))"
  by (induction pre arbitrary: h) auto

lemma no_path_free_list: "(\<And>fl. \<not> is_path N (next p) (head p) fl) \<Longrightarrow> free_list N p = None"
  by (cases "free_list N p") (auto simp: free_list_def walk_Some_iff)

text \<open>
  C8, as amended. \<^verbatim>\<open>release\<close> has no check: given a pointer to a slot of the pool
  that is not live (never acquired, or released already), in any reachable state, it
  returns as for a live one, with \<open>head\<close> the slot and \<open>next\<close> of the slot the old
  \<open>head\<close>. The slot was on the free list already, so the list is now a cycle: the
  walk from \<open>head\<close> never reaches the sentinel.
\<close>

theorem release_not_live_undetected:
  assumes "pool_reach N p live" and "idx < N" and "idx \<notin> live"
  shows "\<exists>p'. release N p (Slot idx) = Inr p' \<and> head p' = idx \<and> next p' ! idx = head p \<and>
              free_list N p' = None"
proof -
  from pool_reach_inv [OF assms(1)] obtain fl where inv: "pool_inv N p live fl" ..
  note d = pool_invD [OF inv]
  let ?nxt = "(next p)[idx := head p]"
  let ?p' = "p\<lparr>storage := (storage p)[idx := None], next := ?nxt, head := idx\<rparr>"
  have r: "release N p (Slot idx) = Inr ?p'" using assms(2) by (rule release_eq)
  from d(6) assms(2,3) have "idx \<in> set fl" by auto
  then obtain pre post where fl: "fl = pre @ idx # post" and npre: "idx \<notin> set pre"
    by (auto dest: split_list_first)
  let ?S = "insert idx (set pre)"
  from is_path_prefix [OF d(3) [unfolded fl]]
  have hS: "head p \<in> ?S" and cl: "\<forall>x\<in>set pre. x < N \<and> next p ! x \<in> ?S" by simp_all
  have "\<forall>x\<in>?S. x < N \<and> ?nxt ! x \<in> ?S"
  proof
    fix x assume x: "x \<in> ?S"
    show "x < N \<and> ?nxt ! x \<in> ?S"
    proof (cases "x = idx")
      case True
      then show ?thesis using assms(2) d(2) hS by simp
    next
      case False
      with x have "x \<in> set pre" by simp
      with cl False show ?thesis by simp
    qed
  qed
  then have "\<not> is_path N ?nxt idx fl'" for fl'
    by (rule is_path_closed) simp
  then have "free_list N ?p' = None" by (intro no_path_free_list) simp
  moreover have "next ?p' ! idx = head p" using assms(2) d(2) by simp
  ultimately show ?thesis using r by simp
qed

theorem release_not_live_undetected_witness:
  "pool_reach 2 \<lparr>storage = [None, None], next = [1, 2], head = 0\<rparr> {} \<and> (1::nat) < 2 \<and> 1 \<notin> ({}::nat set) \<and>
   (\<exists>p'. release 2 \<lparr>storage = [None, None], next = [1, 2], head = 0\<rparr> (Slot 1) = Inr p' \<and>
         head p' = 1 \<and> next p' ! 1 = 0 \<and> free_list 2 p' = None)"
proof -
  let ?p0 = "\<lparr>storage = [None, None], next = [1, 2], head = 0\<rparr>"
  have "EventPool_ctor 2 [0, 0] = Inr ?p0"
    by (simp add: EventPool_ctor_def ctor_loop.simps eval_nat_numeral)
  then have r: "pool_reach 2 ?p0 {}" by (intro fresh [of "[0, 0]"]) simp_all
  show ?thesis using r release_not_live_undetected [OF r, of 1] by simp
qed

text \<open>
  The claim C8 as stated fails: in a pool of two slots, acquire slot 0 and release
  it twice. The second \<^verbatim>\<open>release\<close> returns like the first, and leaves
  \<open>next ! 0 = 0\<close> with \<open>head = 0\<close>: a free list that never ends.
\<close>

theorem double_release_counterexample:
  "EventPool_ctor 2 [0, 0] = Inr \<lparr>storage = [None, None], next = [1, 2], head = 0\<rparr> \<and>
   acquire 2 \<lparr>storage = [None, None], next = [1, 2], head = 0\<rparr> =
     Inr (Slot 0, \<lparr>storage = [Some Event_init, None], next = [1, 2], head = 1\<rparr>) \<and>
   release 2 \<lparr>storage = [Some Event_init, None], next = [1, 2], head = 1\<rparr> (Slot 0) =
     Inr \<lparr>storage = [None, None], next = [1, 2], head = 0\<rparr> \<and>
   release 2 \<lparr>storage = [None, None], next = [1, 2], head = 0\<rparr> (Slot 0) =
     Inr \<lparr>storage = [None, None], next = [0, 2], head = 0\<rparr> \<and>
   free_list 2 \<lparr>storage = [None, None], next = [0, 2], head = 0\<rparr> = None"
  by (simp add: EventPool_ctor_def ctor_loop.simps acquire_def free_list_def eval_nat_numeral)

section \<open>Properties of the double buffer\<close>

lemma xor_one_twice: "((k::int) XOR 1) XOR 1 = k"
  by (simp add: xor.assoc)

lemma commit_fields:
  "buf (commit d) = buf d"
  "writeIdx (commit d) = writeIdx d XOR 1"
  "readIdx (commit d) = readIdx d XOR 1"
  by (simp_all add: commit_def Let_def)

lemma db_shape_ctor: "db_shape N (DoubleBuffer_ctor N)"
  by (simp add: db_shape_def DoubleBuffer_ctor_def)

lemma db_shape_commit: "db_shape N d \<Longrightarrow> db_shape N (commit d)"
  by (auto simp: db_shape_def commit_fields)

lemma db_shape_store:
  assumes "db_shape N d" and "store N d k i x = Inr d'"
  shows "db_shape N d'"
proof -
  from assms(2) have k: "0 \<le> k" "k < 2" and i: "i < N"
    and d': "d' = d\<lparr>buf := (buf d)[nat k := (buf d ! nat k)[i := x]]\<rparr>"
    by (auto simp: store_def split: if_splits)
  from k have "nat k = 0 \<or> nat k = 1" by linarith
  then show ?thesis
    using assms(1) by (auto simp: db_shape_def d' nth_list_update)
qed

lemma db_reach_shape: "db_reach N d \<Longrightarrow> db_shape N d"
  by (induction rule: db_reach.induct)
     (simp_all add: db_shape_ctor db_shape_commit db_shape_store)

lemma store_write_view:
  assumes "db_shape N d" and "i < N"
  shows "store N d (writeBuf d) i x =
         Inr (d\<lparr>buf := (buf d)[nat (writeIdx d) := (buf d ! nat (writeIdx d))[i := x]]\<rparr>)"
  using assms by (auto simp: db_shape_def store_def writeBuf_def)

text \<open>
  C3. For every index \<open>i\<close> below \<open>N\<close> and every \<open>x\<close>: in a reachable state,
  the write of \<open>x\<close> at \<open>i\<close> through the pointer that \<^verbatim>\<open>writeBuf()\<close> returns stays
  within the array, and right after the \<^verbatim>\<open>commit\<close> that follows, the read at \<open>i\<close>
  through the pointer that \<^verbatim>\<open>readBuf()\<close> returns gives \<open>x\<close>.
\<close>

theorem write_commit_read:
  assumes "db_reach N d" and "i < N"
  shows "\<exists>d1. store N d (writeBuf d) i x = Inr d1 \<and>
              load N (commit d1) (readBuf (commit d1)) i = Inr x"
proof -
  have sh: "db_shape N d" using assms(1) by (rule db_reach_shape)
  let ?w = "nat (writeIdx d)"
  let ?d1 = "d\<lparr>buf := (buf d)[?w := (buf d ! ?w)[i := x]]\<rparr>"
  have st: "store N d (writeBuf d) i x = Inr ?d1"
    using sh assms(2) by (rule store_write_view)
  have "load N (commit ?d1) (readBuf (commit ?d1)) i = Inr x"
    using sh assms(2)
    by (auto simp: db_shape_def load_def readBuf_def commit_fields)
  with st show ?thesis by blast
qed

theorem write_commit_read_witness:
  "db_reach 128 (DoubleBuffer_ctor 128) \<and> (0::nat) < 128 \<and>
   (\<exists>d1. store 128 (DoubleBuffer_ctor 128) (writeBuf (DoubleBuffer_ctor 128)) 0 123 = Inr d1 \<and>
         load 128 (commit d1) (readBuf (commit d1)) 0 = Inr 123)"
  using db_ctor [of 128] write_commit_read [OF db_ctor, of 0 128 123] by simp

text \<open>
  C4. The constructed state has write = array 0 and read = array 1; one \<^verbatim>\<open>commit\<close> gives
  write = array 1 and read = array 0; two give the constructed state again; and
  \<^verbatim>\<open>commit\<close> twice is the identity on every state.
\<close>

theorem commit_involution:
  "writeIdx (DoubleBuffer_ctor N) = 0 \<and> readIdx (DoubleBuffer_ctor N) = 1 \<and>
   writeIdx (commit (DoubleBuffer_ctor N)) = 1 \<and> readIdx (commit (DoubleBuffer_ctor N)) = 0 \<and>
   commit (commit (DoubleBuffer_ctor N)) = DoubleBuffer_ctor N \<and>
   commit (commit s) = s"
  by (simp add: commit_def Let_def DoubleBuffer_ctor_def xor_one_twice)

text \<open>
  C5. \<^verbatim>\<open>commit\<close> leaves both arrays as they are, in every state: only the two role
  indices can change.
\<close>

theorem commit_keeps_buffers:
  "buf (commit d) = buf d \<and>
   commit d = d\<lparr>readIdx := readIdx (commit d), writeIdx := writeIdx (commit d)\<rparr>"
  by (simp add: commit_def Let_def)

text \<open>
  C6. The constructed state assigns WRITE to array 0 and READ to array 1, and in every
  reachable state the write index and the read index differ and are 0 and 1 between
  them.
\<close>

theorem role_indices_complementary:
  "writeIdx (DoubleBuffer_ctor N) = 0 \<and> readIdx (DoubleBuffer_ctor N) = 1 \<and>
   (db_reach N d \<longrightarrow> writeIdx d \<noteq> readIdx d \<and> {writeIdx d, readIdx d} = {0, 1})"
proof -
  have "writeIdx d \<noteq> readIdx d \<and> {writeIdx d, readIdx d} = {0, 1}" if "db_reach N d"
    using db_reach_shape [OF that] by (auto simp: db_shape_def)
  then show ?thesis by (simp add: DoubleBuffer_ctor_def)
qed

theorem role_indices_complementary_witness:
  "writeIdx (DoubleBuffer_ctor 128) = 0 \<and> readIdx (DoubleBuffer_ctor 128) = 1 \<and>
   db_reach 128 (commit (DoubleBuffer_ctor 128)) \<and>
   writeIdx (commit (DoubleBuffer_ctor 128)) \<noteq> readIdx (commit (DoubleBuffer_ctor 128)) \<and>
   {writeIdx (commit (DoubleBuffer_ctor 128)), readIdx (commit (DoubleBuffer_ctor 128))} = {0, 1}"
  using role_indices_complementary [of 128 "commit (DoubleBuffer_ctor 128)"]
    db_commit [OF db_ctor, of 128]
  by simp

text \<open>
  C10. In the constructed state both arrays hold zeros: for every index \<open>i\<close> below
  \<open>N\<close>, reading at \<open>i\<close> through \<^verbatim>\<open>readBuf()\<close> and through \<^verbatim>\<open>writeBuf()\<close> gives 0.
\<close>

theorem ctor_zero_filled:
  assumes "i < N"
  shows "load N (DoubleBuffer_ctor N) (readBuf (DoubleBuffer_ctor N)) i = Inr 0 \<and>
         load N (DoubleBuffer_ctor N) (writeBuf (DoubleBuffer_ctor N)) i = Inr 0"
  using assms by (simp add: load_def readBuf_def writeBuf_def DoubleBuffer_ctor_def)

theorem ctor_zero_filled_witness:
  "(127::nat) < 128 \<and>
   load 128 (DoubleBuffer_ctor 128) (readBuf (DoubleBuffer_ctor 128)) 127 = Inr 0 \<and>
   load 128 (DoubleBuffer_ctor 128) (writeBuf (DoubleBuffer_ctor 128)) 127 = Inr 0"
  using ctor_zero_filled [of 127 128] by simp

end
